theory Spec2Isabelle
  imports Complex_Main "HOL-Library.Word"
begin

unbundle bit_operations_syntax

section \<open>Machine types of the two programs\<close>

text \<open>
  Both programs (\<^verbatim>\<open>p2mpclient.c\<close>, the sender, and \<^verbatim>\<open>p2mpserver.c\<close>, the receiver)
  use \<^verbatim>\<open>char\<close> buffers, an \<^verbatim>\<open>int16_t\<close> checksum and type tag and an \<^verbatim>\<open>int32_t\<close>
  sequence number. They are modelled as words of that width; \<^verbatim>\<open>int\<close> is 32 bits wide.
  Signed values are read with \<open>sint\<close>; the integer promotion of a signed operand is \<open>scast\<close>
  and the conversion back to a narrower type is \<open>ucast\<close> (truncation).
\<close>

type_synonym byte = "8 word"
type_synonym int16 = "16 word"
type_synonym int32 = "32 word"

definition DATA_PKT :: int32 where
  "DATA_PKT = 0x5555"

definition ACK_PKT :: int32 where
  "ACK_PKT = 0xAAAA"

definition MAX_MSS :: nat where
  "MAX_MSS = 1024"

definition INVALID_SEQ_NO :: int32 where
  "INVALID_SEQ_NO = - 1"

record header =
  seqNum :: int32
  checksum :: int16
  type :: int16

record packet =
  hdr :: header
  data :: "byte list"

section \<open>The checksum (\<^verbatim>\<open>calculateChecksum\<close>, identical in both programs)\<close>

text \<open>
  \<^verbatim>\<open>word16 = ((buffer[i] << 8) & 0xFF00) + (buffer[i+1] & 0xFF);\<close>
  The two \<^verbatim>\<open>char\<close> operands are promoted to \<^verbatim>\<open>int\<close> (sign extension), shifted, masked and
  added there; the assignment to the \<^verbatim>\<open>int16_t\<close> variable truncates.
\<close>

definition make_word16 :: "byte \<Rightarrow> byte \<Rightarrow> int16" where
  "make_word16 hi lo =
     ucast ((push_bit 8 (scast hi :: int32) AND 0xFF00) + ((scast lo :: int32) AND 0xFF))"

text \<open>\<^verbatim>\<open>word16 = ((buffer[bufferSize - 1] << 8) & 0xFF00);\<close> for the last byte of an odd buffer.\<close>

definition last_word16 :: "byte \<Rightarrow> int16" where
  "last_word16 hi = ucast (push_bit 8 (scast hi :: int32) AND 0xFF00)"

text \<open>\<^verbatim>\<open>sum = sum + word16;\<close> is computed in \<^verbatim>\<open>int\<close> and truncated to \<^verbatim>\<open>int16_t\<close>.\<close>

definition add16 :: "int16 \<Rightarrow> int16 \<Rightarrow> int16" where
  "add16 s w = ucast ((scast s :: int32) + scast w)"

text \<open>\<^verbatim>\<open>sum = ~sum;\<close> likewise.\<close>

definition not16 :: "int16 \<Rightarrow> int16" where
  "not16 s = ucast (NOT (scast s :: int32))"

text \<open>
  The \<^verbatim>\<open>for (int i = 0; i < bufferSize - 1; i = i + 2)\<close> loop, with the running sum as
  accumulator. Index and size are non-negative here, so they are naturals; the loop test
  is evaluated over the integers as in the source.
\<close>

function checksum_loop :: "byte list \<Rightarrow> nat \<Rightarrow> nat \<Rightarrow> int16 \<Rightarrow> int16" where
  "checksum_loop buffer bufferSize i s =
     (if int i < int bufferSize - 1
      then checksum_loop buffer bufferSize (i + 2)
             (add16 s (make_word16 (buffer ! i) (buffer ! (i + 1))))
      else s)"
  by pat_completeness auto
termination
  by (relation "measure (\<lambda>(buffer, bufferSize, i, s). bufferSize - i)") auto

declare checksum_loop.simps [simp del]

text \<open>
  The whole function. The source reads \<^verbatim>\<open>buffer[0 .. bufferSize - 1]\<close>; a size beyond the
  buffer is a read out of bounds (undefined behaviour in C), which the model returns as
  \<open>None\<close>.
\<close>

definition calculateChecksum :: "byte list \<Rightarrow> nat \<Rightarrow> int16 option" where
  "calculateChecksum buffer bufferSize =
     (if length buffer < bufferSize then None
      else
        let s = checksum_loop buffer bufferSize 0 0;
            s = (if bufferSize mod 2 \<noteq> 0
                 then add16 s (last_word16 (buffer ! (bufferSize - 1)))
                 else s)
        in Some (not16 s))"

subsection \<open>The checksum as the specification words it\<close>

text \<open>
  Pair consecutive bytes big-endian into 16-bit words, with a final zero-padded word when
  the number of bytes is odd; sum with 16-bit wrap-around; return the one's complement.
\<close>

fun be_words :: "byte list \<Rightarrow> int16 list" where
  "be_words [] = []"
| "be_words [a] = [word_cat a (0 :: byte)]"
| "be_words (a # b # xs) = word_cat a b # be_words xs"

definition checksum_spec :: "byte list \<Rightarrow> nat \<Rightarrow> int16" where
  "checksum_spec buffer len = NOT (sum_list (be_words (take len buffer)))"

section \<open>The sender (\<^verbatim>\<open>p2mpclient.c\<close>)\<close>

subsection \<open>\<^verbatim>\<open>sendPacket\<close>: the datagram that is built\<close>

text \<open>
  \<^verbatim>\<open>strncpy(packet.data, buffer, bufferSize)\<close>: the first \<open>n\<close> bytes of the destination
  after the call. The C library copies up to the first NUL of the source and fills the
  rest of the \<open>n\<close> bytes with NUL. Reading past the end of the source is \<open>None\<close>.
\<close>

fun strncpy :: "byte list \<Rightarrow> nat \<Rightarrow> byte list option" where
  "strncpy src 0 = Some []"
| "strncpy [] (Suc n) = None"
| "strncpy (c # cs) (Suc n) =
     (if c = 0 then Some (replicate (Suc n) 0) else map_option ((#) c) (strncpy cs n))"

text \<open>
  The packet \<^verbatim>\<open>sendPacket(segmentNum, buffer, bufferSize)\<close> builds before its loop over the
  servers; \<open>data\<close> holds the \<open>bufferSize\<close> payload bytes that \<^verbatim>\<open>sendto\<close> transmits after
  the header (\<^verbatim>\<open>packetSize = bufferSize + sizeof(Header)\<close>). The statement
  \<^verbatim>\<open>packet.data[bufferSize] = '\0'\<close> writes behind the payload; with
  \<open>bufferSize \<ge> MAX_MSS\<close> it writes outside \<^verbatim>\<open>data[MAX_MSS]\<close>, which is \<open>None\<close> here.
  The loop that follows sends this same datagram to each server in turn, again after
  every timeout, until that server's acknowledgement arrives; it changes neither the
  packet nor the order of the segments and is not part of the model.
\<close>

definition sendPacket :: "int32 \<Rightarrow> byte list \<Rightarrow> nat \<Rightarrow> packet option" where
  "sendPacket segmentNum buffer bufferSize =
     (if MAX_MSS \<le> bufferSize then None
      else case strncpy buffer bufferSize of
        None \<Rightarrow> None
      | Some packet_data \<Rightarrow>
          (case calculateChecksum packet_data bufferSize of
             None \<Rightarrow> None
           | Some c \<Rightarrow>
               Some \<lparr>hdr = \<lparr>seqNum = segmentNum, checksum = c, type = ucast DATA_PKT\<rparr>,
                     data = take bufferSize packet_data\<rparr>))"

subsection \<open>\<^verbatim>\<open>main\<close> of the sender: cutting the file into segments\<close>

text \<open>
  A call \<^verbatim>\<open>sendPacket(segmentNum, buffer, bufferSize)\<close>, with the bytes \<^verbatim>\<open>fread\<close> has just
  put into the first \<open>bufferSize\<close> places of \<^verbatim>\<open>buffer\<close>.
\<close>

record send_call =
  arg_segmentNum :: nat
  arg_buffer :: "byte list"
  arg_bufferSize :: nat

datatype client_exit =
    Returned          \<comment> \<open>\<^verbatim>\<open>main\<close> runs to its end\<close>
  | Exit_short_read   \<comment> \<open>\<^verbatim>\<open>exit(2)\<close> after \<^verbatim>\<open>nread != bufferSize\<close>\<close>
  | Buffer_overrun    \<comment> \<open>\<^verbatim>\<open>fread\<close> of more than \<open>MAX_MSS\<close> bytes into \<^verbatim>\<open>buffer[MAX_MSS]\<close>\<close>
  | Divide_by_zero    \<comment> \<open>\<^verbatim>\<open>fileLength / mss\<close> with \<open>mss = 0\<close>\<close>

text \<open>
  The \<^verbatim>\<open>while (segmentNum < numSegments)\<close> loop followed by the last
  \<^verbatim>\<open>sendPacket(segmentNum, buffer, 0)\<close>. The file is its list of bytes, \<open>pos\<close> the read
  position of the stream; \<^verbatim>\<open>fread\<close> returns the bytes that are left, at most \<open>bufferSize\<close>.
  Sizes are assumed to fit an \<^verbatim>\<open>int\<close>; in the \<open>else\<close> branch \<open>segmentNum = numSegments - 1\<close>,
  so the subtraction does not go below zero.
\<close>

function segment_loop ::
  "byte list \<Rightarrow> nat \<Rightarrow> nat \<Rightarrow> nat \<Rightarrow> nat \<Rightarrow> send_call list \<times> client_exit" where
  "segment_loop file mss numSegments segNum pos =
     (if segNum < numSegments then
        let bufSize = (if int segNum < int numSegments - 1 then mss
                       else length file - mss * segNum)
        in if MAX_MSS < bufSize then ([], Buffer_overrun)
           else
             let bytes = take bufSize (drop pos file);
                 nread = length bytes
             in if nread \<noteq> bufSize then ([], Exit_short_read)
                else
                  let (calls, e) = segment_loop file mss numSegments (segNum + 1) (pos + nread)
                  in (\<lparr>arg_segmentNum = segNum, arg_buffer = bytes, arg_bufferSize = bufSize\<rparr> # calls, e)
      else ([\<lparr>arg_segmentNum = segNum, arg_buffer = [], arg_bufferSize = 0\<rparr>], Returned))"
  by pat_completeness auto
termination
  by (relation "measure (\<lambda>(file, mss, numSegments, segNum, pos). numSegments - segNum)") auto

declare segment_loop.simps [simp del]

text \<open>
  \<^verbatim>\<open>main\<close> from \<^verbatim>\<open>fseek\<close> on: \<^verbatim>\<open>numSegments = (fileLength / mss) + 1\<close>, then the loop. The
  result is the list of \<^verbatim>\<open>sendPacket\<close> calls in the order they are made, and how \<^verbatim>\<open>main\<close>
  ends. Parsing of the arguments and opening of sockets and file come before and are
  not modelled; \<open>mss\<close> is the parsed value, taken non-negative.
\<close>

definition client_main :: "byte list \<Rightarrow> nat \<Rightarrow> send_call list \<times> client_exit" where
  "client_main file mss =
     (if mss = 0 then ([], Divide_by_zero)
      else let fileLength = length file;
               numSegments = fileLength div mss + 1
           in segment_loop file mss numSegments 0 0)"

text \<open>
  For stating what \<^verbatim>\<open>main\<close> sends: the call for segment \<open>k\<close> when it is a full one.
\<close>

definition full_segment :: "byte list \<Rightarrow> nat \<Rightarrow> nat \<Rightarrow> send_call" where
  "full_segment file mss k =
     \<lparr>arg_segmentNum = k, arg_buffer = take mss (drop (mss * k) file), arg_bufferSize = mss\<rparr>"

section \<open>The receiver (\<^verbatim>\<open>p2mpserver.c\<close>)\<close>

text \<open>
  The variables of \<^verbatim>\<open>main\<close> that live across iterations of \<^verbatim>\<open>while (1)\<close>. Both are \<^verbatim>\<open>int\<close>;
  \<^verbatim>\<open>expectedSeqNum++\<close> is modelled with two's complement wrap-around, which only shows
  after \<open>2 ^ 31\<close> accepted packets.
\<close>

record receiver =
  expectedSeqNum :: int32
  lastSeqNum :: int32

text \<open>
  What one \<^verbatim>\<open>recvfrom\<close> delivers: a failure (\<open>f_recv_size \<le> 0\<close>) or a datagram made of a
  whole header and \<open>f_recv_size - sizeof(Header)\<close> payload bytes. A datagram shorter than a
  header would leave stale header fields in \<^verbatim>\<open>dataPacket\<close> and is outside the model.
\<close>

datatype event = RecvFail | Datagram packet

datatype message = PacketLoss int32 | FatalRecvfrom

text \<open>What an iteration does to the outside: \<^verbatim>\<open>sendto\<close>, \<^verbatim>\<open>fwrite\<close>, \<^verbatim>\<open>printf\<close>, in order.\<close>

datatype action = Sendto header | Fwrite "byte list" | Printf message

text \<open>How an iteration ends: \<^verbatim>\<open>continue\<close> or the end of the body, \<^verbatim>\<open>break\<close>, \<^verbatim>\<open>exit(0)\<close>.\<close>

datatype control = Continue | Break | Exit

text \<open>
  One iteration of \<^verbatim>\<open>while (1)\<close>. \<open>rand_value\<close> is what \<^verbatim>\<open>rand()\<close> returns if this iteration
  calls it. \<^verbatim>\<open>double\<close> is idealised as \<open>real\<close>: the quotient \<open>randNum / 100\<close> and the
  comparison are exact here (they are exact in \<^verbatim>\<open>double\<close> too for a probability of 0).
\<close>

definition receive_step ::
  "real \<Rightarrow> receiver \<Rightarrow> event \<Rightarrow> nat \<Rightarrow> control \<times> receiver \<times> action list" where
  "receive_step packetLossProb s ev rand_value =
     (case ev of
        RecvFail \<Rightarrow> (Exit, s, [Printf FatalRecvfrom])
      | Datagram dataPacket \<Rightarrow>
          if scast (type (hdr dataPacket)) \<noteq> DATA_PKT then (Exit, s, [Printf FatalRecvfrom])
          else
            let bufSize = length (data dataPacket) in
            if calculateChecksum (data dataPacket) bufSize \<noteq> Some (checksum (hdr dataPacket))
            then (Continue, s, [])
            else
              let randNum = rand_value mod 100;
                  randPacketLossProb = real randNum / 100
              in if randPacketLossProb \<le> packetLossProb
                 then (Continue, s, [Printf (PacketLoss (seqNum (hdr dataPacket)))])
                 else
                   let (s', out) =
                     (if seqNum (hdr dataPacket) = expectedSeqNum s then
                        (s\<lparr>lastSeqNum := expectedSeqNum s,
                           expectedSeqNum := expectedSeqNum s + 1\<rparr>,
                         [Sendto \<lparr>seqNum = expectedSeqNum s, checksum = 0,
                                  type = ucast ACK_PKT\<rparr>,
                          Fwrite (take bufSize (data dataPacket))])
                      else if seqNum (hdr dataPacket) \<noteq> expectedSeqNum s then
                        (s, [Sendto \<lparr>seqNum = lastSeqNum s, checksum = 0,
                                     type = ucast ACK_PKT\<rparr>])
                      else (s, []))
                   in (if bufSize = 0 then Break else Continue, s', out))"

text \<open>
  The loop over the datagrams that arrive, each paired with the value of \<^verbatim>\<open>rand()\<close> for its
  iteration. The result lists, per iteration that ran, how it ended, the variables after
  it and its actions; the loop runs on only after \<open>Continue\<close>. When the list of arrivals
  is used up the receiver is blocked in \<^verbatim>\<open>recvfrom\<close>.
\<close>

fun receive_loop ::
  "real \<Rightarrow> receiver \<Rightarrow> (event \<times> nat) list \<Rightarrow> (control \<times> receiver \<times> action list) list" where
  "receive_loop packetLossProb s [] = []"
| "receive_loop packetLossProb s ((ev, rand_value) # rest) =
     (let r = receive_step packetLossProb s ev rand_value
      in r # (if fst r = Continue then receive_loop packetLossProb (fst (snd r)) rest else []))"

text \<open>\<^verbatim>\<open>int expectedSeqNum = 0; int lastSeqNum = INVALID_SEQ_NO;\<close>\<close>

definition initial :: receiver where
  "initial = \<lparr>expectedSeqNum = 0, lastSeqNum = INVALID_SEQ_NO\<rparr>"

definition server_main ::
  "real \<Rightarrow> (event \<times> nat) list \<Rightarrow> (control \<times> receiver \<times> action list) list" where
  "server_main packetLossProb arrivals = receive_loop packetLossProb initial arrivals"

text \<open>Observations on a run: the actions that are writes to the output file.\<close>

fun is_Fwrite :: "action \<Rightarrow> bool" where
  "is_Fwrite (Fwrite b) = True"
| "is_Fwrite _ = False"

text \<open>An iteration that wrote to the file, and how many of a run did.\<close>

definition wrote :: "control \<times> receiver \<times> action list \<Rightarrow> bool" where
  "wrote r = list_ex is_Fwrite (snd (snd r))"

definition accepted :: "(control \<times> receiver \<times> action list) list \<Rightarrow> nat" where
  "accepted tr = length (filter wrote tr)"

text \<open>The variables before iteration \<open>i\<close> of a run that started from \<open>s\<close>.\<close>

definition state_before ::
  "receiver \<Rightarrow> (control \<times> receiver \<times> action list) list \<Rightarrow> nat \<Rightarrow> receiver" where
  "state_before s tr i = (if i = 0 then s else fst (snd (tr ! (i - 1))))"

section \<open>Facts about the 16-bit arithmetic\<close>

lemma add16_plus: "add16 a b = a + b"
  unfolding add16_def
proof transfer
  fix a b :: int
  have "take_bit 16 (signed_take_bit 15 a + signed_take_bit 15 b)
        = take_bit 16 (take_bit 16 (signed_take_bit 15 a) + take_bit 16 (signed_take_bit 15 b))"
    by (simp only: take_bit_add)
  also have "\<dots> = take_bit 16 (take_bit 16 a + take_bit 16 b)"
    by (simp add: take_bit_signed_take_bit)
  also have "\<dots> = take_bit 16 (a + b)"
    by (simp only: take_bit_add)
  finally show "take_bit LENGTH(16) (take_bit LENGTH(32)
      (signed_take_bit (LENGTH(16) - Suc 0) a + signed_take_bit (LENGTH(16) - Suc 0) b))
      = take_bit LENGTH(16) (a + b)"
    by (simp add: min_def)
qed

lemma not16_NOT: "not16 a = NOT a"
  unfolding not16_def
  by (rule bit_word_eqI) (auto simp: bit_simps)

lemma mask_FF00: "(0xFF00 :: int32) = push_bit 8 (mask 8)"
  by (simp add: mask_eq_exp_minus_1)

lemma mask_FF: "(0xFF :: int32) = mask 8"
  by (simp add: mask_eq_exp_minus_1)

lemma high_byte: "push_bit 8 (scast hi :: int32) AND 0xFF00 = push_bit 8 (ucast (hi :: byte))"
  unfolding mask_FF00
proof (rule bit_word_eqI)
  fix n assume "n < LENGTH(32)"
  consider "n < 15" | "n = 15" | "15 < n" by linarith
  then show "bit (push_bit 8 (scast hi) AND push_bit 8 (mask 8) :: int32) n
             = bit (push_bit 8 (ucast hi) :: int32) n"
    by cases (auto simp: bit_simps min_def dest: bit_imp_le_length)
qed

lemma low_byte: "(scast lo :: int32) AND 0xFF = ucast (lo :: byte)"
  unfolding mask_FF
proof (rule bit_word_eqI)
  fix n assume "n < LENGTH(32)"
  consider "n < 7" | "n = 7" | "7 < n" by linarith
  then show "bit (scast lo AND mask 8 :: int32) n = bit (ucast lo :: int32) n"
    by cases (auto simp: bit_simps min_def dest: bit_imp_le_length)
qed

lemma unat_byte_less: "unat (b :: byte) < 256"
  using unsigned_less [of b, where 'a = nat] by simp

lemma unat_ucast_byte32: "unat (ucast b :: int32) = unat (b :: byte)"
  using unat_byte_less [of b] by (simp add: unsigned_ucast_eq take_bit_nat_eq_self_iff)

lemma unat_ucast_byte16: "unat (ucast b :: int16) = unat (b :: byte)"
  using unat_byte_less [of b] by (simp add: unsigned_ucast_eq take_bit_nat_eq_self_iff)

lemma unat_pair32:
  "unat (push_bit 8 (ucast hi :: int32) + ucast (lo :: byte)) = 256 * unat (hi :: byte) + unat lo"
proof -
  have h: "unat (push_bit 8 (ucast hi :: int32)) = 256 * unat hi"
    using unat_byte_less [of hi]
    by (simp add: push_bit_eq_mult unat_word_ariths unat_ucast_byte32)
  show ?thesis
    using unat_byte_less [of hi] unat_byte_less [of lo]
    by (simp add: unat_word_ariths h unat_ucast_byte32)
qed

lemma unat_make_word16: "unat (make_word16 hi lo) = 256 * unat hi + unat lo"
proof -
  have "unat (make_word16 hi lo) = (256 * unat hi + unat lo) mod 2 ^ 16"
    unfolding make_word16_def high_byte low_byte
    by (simp add: unsigned_ucast_eq unat_pair32 take_bit_eq_mod)
  thus ?thesis
    using unat_byte_less [of hi] unat_byte_less [of lo] by simp
qed

lemma unat_word_cat: "unat (word_cat hi lo :: int16) = 256 * unat (hi :: byte) + unat (lo :: byte)"
proof -
  have h: "unat (push_bit 8 (ucast hi :: int16)) = 256 * unat hi"
    using unat_byte_less [of hi]
    by (simp add: push_bit_eq_mult unat_word_ariths unat_ucast_byte16)
  show ?thesis
    using unat_byte_less [of hi] unat_byte_less [of lo]
    by (simp add: word_cat_eq unat_word_ariths h unat_ucast_byte16)
qed

lemma make_word16_cat: "make_word16 hi lo = word_cat hi lo"
  by (simp add: word_unat_eq_iff unat_make_word16 unat_word_cat)

lemma last_word16_cat: "last_word16 hi = word_cat hi (0 :: byte)"
proof -
  have "last_word16 hi = make_word16 hi 0"
    by (simp add: last_word16_def make_word16_def)
  thus ?thesis by (simp add: make_word16_cat)
qed

lemma word_cat_inject:
  "(word_cat a b :: int16) = word_cat a' b' \<longleftrightarrow> a = a' \<and> b = (b' :: byte)" for a a' :: byte
proof
  assume "(word_cat a b :: int16) = word_cat a' b'"
  hence e: "256 * unat a + unat b = 256 * unat a' + unat b'"
    by (simp add: word_unat_eq_iff unat_word_cat)
  from e have "(256 * unat a + unat b) mod 256 = (256 * unat a' + unat b') mod 256"
    by (rule arg_cong)
  hence l: "unat b = unat b'"
    using unat_byte_less [of b] unat_byte_less [of b'] by simp
  with e have "unat a = unat a'"
    by simp
  with l show "a = a' \<and> b = b'"
    by (simp add: word_unat_eq_iff)
qed simp

section \<open>The loop of the checksum computes the sum of the big-endian words\<close>

lemma checksum_loop_step:
  "int i < int n - 1 \<Longrightarrow>
   checksum_loop buffer n i s
   = checksum_loop buffer n (i + 2) (add16 s (make_word16 (buffer ! i) (buffer ! (i + 1))))"
  by (subst checksum_loop.simps) simp

lemma checksum_loop_stop: "\<not> int i < int n - 1 \<Longrightarrow> checksum_loop buffer n i s = s"
  by (subst checksum_loop.simps) simp

lemma checksum_loop_sum:
  "even i \<Longrightarrow> i \<le> n \<Longrightarrow> n \<le> length buffer \<Longrightarrow>
   (if n mod 2 \<noteq> 0 then add16 (checksum_loop buffer n i s) (last_word16 (buffer ! (n - 1)))
    else checksum_loop buffer n i s)
   = s + sum_list (be_words (take (n - i) (drop i buffer)))"
proof (induction buffer n i s rule: checksum_loop.induct)
  case (1 buffer bufferSize i s)
  show ?case
  proof (cases "int i < int bufferSize - 1")
    case True
    hence lt: "i + 1 < bufferSize" by simp
    have d: "drop i buffer = buffer ! i # buffer ! (i + 1) # drop (i + 2) buffer"
      using Cons_nth_drop_Suc [of i buffer] Cons_nth_drop_Suc [of "Suc i" buffer] lt "1.prems"(3)
      by simp
    have n: "bufferSize - i = Suc (Suc (bufferSize - (i + 2)))"
      using lt by simp
    have split: "take (bufferSize - i) (drop i buffer)
          = buffer ! i # buffer ! (i + 1) # take (bufferSize - (i + 2)) (drop (i + 2) buffer)"
      by (simp only: d n take_Suc_Cons)
    have ih: "(if bufferSize mod 2 \<noteq> 0
          then add16 (checksum_loop buffer bufferSize (i + 2) (add16 s (make_word16 (buffer ! i) (buffer ! (i + 1)))))
                 (last_word16 (buffer ! (bufferSize - 1)))
          else checksum_loop buffer bufferSize (i + 2) (add16 s (make_word16 (buffer ! i) (buffer ! (i + 1)))))
        = add16 s (make_word16 (buffer ! i) (buffer ! (i + 1)))
          + sum_list (be_words (take (bufferSize - (i + 2)) (drop (i + 2) buffer)))"
      using "1.IH" [OF True] "1.prems" lt by simp
    show ?thesis
      unfolding checksum_loop_step [OF True] ih split
      by (simp add: add16_plus make_word16_cat add.assoc)
  next
    case False
    hence "bufferSize = i \<or> bufferSize = i + 1"
      using "1.prems"(2) by linarith
    thus ?thesis
    proof
      assume e: "bufferSize = i"
      moreover have "bufferSize mod 2 = 0"
        using e "1.prems"(1) by presburger
      ultimately show ?thesis
        using False by (simp add: checksum_loop_stop)
    next
      assume e: "bufferSize = i + 1"
      hence "take (bufferSize - i) (drop i buffer) = [buffer ! i]"
        using "1.prems"(3) Cons_nth_drop_Suc [of i buffer, symmetric] by simp
      moreover have "bufferSize mod 2 \<noteq> 0"
        using e "1.prems"(1) by presburger
      ultimately show ?thesis
        using e False by (simp add: add16_plus last_word16_cat checksum_loop_stop)
    qed
  qed
qed

lemma calculateChecksum_eq_spec:
  "bufferSize \<le> length buffer \<Longrightarrow>
   calculateChecksum buffer bufferSize = Some (checksum_spec buffer bufferSize)"
  using checksum_loop_sum [of 0 bufferSize buffer 0]
  by (simp add: calculateChecksum_def checksum_spec_def not16_NOT Let_def)

lemma be_words_update:
  "j < length xs \<Longrightarrow> a \<noteq> xs ! j \<Longrightarrow> sum_list (be_words (xs[j := a])) \<noteq> sum_list (be_words xs)"
proof (induction xs arbitrary: j rule: be_words.induct)
  case 1
  then show ?case by simp
next
  case (2 b)
  then show ?case by (simp add: word_cat_inject)
next
  case (3 b c xs)
  show ?case
  proof (cases j)
    case 0
    with 3 show ?thesis by (simp add: word_cat_inject)
  next
    case (Suc k)
    show ?thesis
    proof (cases k)
      case 0
      with Suc 3 show ?thesis by (simp add: word_cat_inject)
    next
      case (Suc m)
      with \<open>j = Suc k\<close> 3 show ?thesis by simp
    qed
  qed
qed

lemma flip_bit_neq: "k < 8 \<Longrightarrow> b XOR push_bit k 1 \<noteq> (b :: byte)"
proof
  assume k: "k < 8" and e: "b XOR push_bit k 1 = b"
  have "b XOR (b XOR push_bit k 1) = b XOR b"
    using e by simp
  hence "(push_bit k 1 :: byte) = 0"
    by (simp add: xor.assoc [symmetric])
  thus False using k by simp
qed

section \<open>Claims about the checksum\<close>

text \<open>
  Claim C8. For every buffer and every length within it, \<^verbatim>\<open>calculateChecksum\<close> returns the
  one's complement of the 16-bit wrap-around sum of the consecutive byte pairs taken
  big-endian, with a last zero-padded word when the length is odd. Every such input is
  valid (the function returns a value), and for length zero the value is the complement
  of zero.
\<close>

theorem calculateChecksum_refines_spec:
  "(bufferSize \<le> length buffer \<longrightarrow>
      calculateChecksum buffer bufferSize = Some (checksum_spec buffer bufferSize))
   \<and> calculateChecksum buffer 0 = Some (NOT 0)"
proof
  show "bufferSize \<le> length buffer \<longrightarrow>
      calculateChecksum buffer bufferSize = Some (checksum_spec buffer bufferSize)"
    by (simp add: calculateChecksum_eq_spec)
  show "calculateChecksum buffer 0 = Some (NOT 0)"
    using calculateChecksum_eq_spec [of 0 buffer] by (simp add: checksum_spec_def)
qed

text \<open>The three bytes 41 00 42 at length 3: the words 4100 and 4200 sum to 8300, complement 7CFF.\<close>

theorem calculateChecksum_refines_spec_witness:
  "(3::nat) \<le> length [0x41, 0, 0x42 :: byte]
   \<and> calculateChecksum [0x41, 0, 0x42] 3 = Some (checksum_spec [0x41, 0, 0x42] 3)
   \<and> checksum_spec [0x41, 0, 0x42] 3 = 0x7CFF
   \<and> calculateChecksum [0x41, 0, 0x42] 0 = Some (- 1)"
  using calculateChecksum_refines_spec [of 3 "[0x41, 0, 0x42]"]
  by (simp add: checksum_spec_def word_cat_eq)

text \<open>
  Claim C9. For every buffer, every length within it and every byte among the first
  \<open>length\<close> bytes, flipping any one of the eight bits of that byte changes the checksum.
\<close>

theorem checksum_detects_bit_flip:
  assumes "j < bufferSize" and "bufferSize \<le> length buffer" and "k < 8"
  shows "calculateChecksum (buffer[j := buffer ! j XOR push_bit k 1]) bufferSize
         \<noteq> calculateChecksum buffer bufferSize"
proof -
  let ?xs = "take bufferSize buffer"
  have j: "j < length ?xs" using assms by simp
  have "?xs ! j = buffer ! j" using assms by simp
  hence "buffer ! j XOR push_bit k 1 \<noteq> ?xs ! j"
    using flip_bit_neq [OF assms(3)] by simp
  hence "sum_list (be_words (?xs[j := buffer ! j XOR push_bit k 1])) \<noteq> sum_list (be_words ?xs)"
    by (rule be_words_update [OF j])
  moreover have "take bufferSize (buffer[j := buffer ! j XOR push_bit k 1])
                 = ?xs[j := buffer ! j XOR push_bit k 1]"
    using assms(1) by (simp add: take_update_swap)
  ultimately have "checksum_spec (buffer[j := buffer ! j XOR push_bit k 1]) bufferSize
                   \<noteq> checksum_spec buffer bufferSize"
    by (simp add: checksum_spec_def)
  thus ?thesis
    using assms(2) by (simp add: calculateChecksum_eq_spec)
qed

text \<open>Flipping bit 0 of the middle byte of 41 00 42.\<close>

theorem checksum_detects_bit_flip_witness:
  "(1::nat) < 3 \<and> (3::nat) \<le> length [0x41, 0, 0x42 :: byte] \<and> (0::nat) < 8
   \<and> calculateChecksum ([0x41, 0, 0x42][1 := [0x41, 0, 0x42 :: byte] ! 1 XOR push_bit 0 1]) 3
       \<noteq> calculateChecksum [0x41, 0, 0x42] 3"
  using checksum_detects_bit_flip [of 1 3 "[0x41, 0, 0x42]" 0]
  by simp

section \<open>One iteration of the receiver, case by case\<close>

lemma checksum_empty: "calculateChecksum [] 0 = Some (- 1)"
  using calculateChecksum_eq_spec [of 0 "[]"] by (simp add: checksum_spec_def)

text \<open>The four ways an iteration on a datagram of type DATA can go.\<close>

lemma step_mismatch:
  "scast (type (hdr p)) = DATA_PKT \<Longrightarrow>
   calculateChecksum (data p) (length (data p)) \<noteq> Some (checksum (hdr p)) \<Longrightarrow>
   receive_step prob s (Datagram p) r = (Continue, s, [])"
  by (simp add: receive_step_def)

lemma step_loss:
  "scast (type (hdr p)) = DATA_PKT \<Longrightarrow>
   calculateChecksum (data p) (length (data p)) = Some (checksum (hdr p)) \<Longrightarrow>
   real (r mod 100) / 100 \<le> prob \<Longrightarrow>
   receive_step prob s (Datagram p) r = (Continue, s, [Printf (PacketLoss (seqNum (hdr p)))])"
  by (simp add: receive_step_def Let_def)

lemma step_in_sequence:
  "scast (type (hdr p)) = DATA_PKT \<Longrightarrow>
   calculateChecksum (data p) (length (data p)) = Some (checksum (hdr p)) \<Longrightarrow>
   \<not> real (r mod 100) / 100 \<le> prob \<Longrightarrow>
   seqNum (hdr p) = expectedSeqNum s \<Longrightarrow>
   receive_step prob s (Datagram p) r
   = (if data p = [] then Break else Continue,
      s\<lparr>lastSeqNum := expectedSeqNum s, expectedSeqNum := expectedSeqNum s + 1\<rparr>,
      [Sendto \<lparr>seqNum = expectedSeqNum s, checksum = 0, type = ucast ACK_PKT\<rparr>,
       Fwrite (data p)])"
  by (simp add: receive_step_def Let_def)

lemma step_out_of_sequence:
  "scast (type (hdr p)) = DATA_PKT \<Longrightarrow>
   calculateChecksum (data p) (length (data p)) = Some (checksum (hdr p)) \<Longrightarrow>
   \<not> real (r mod 100) / 100 \<le> prob \<Longrightarrow>
   seqNum (hdr p) \<noteq> expectedSeqNum s \<Longrightarrow>
   receive_step prob s (Datagram p) r
   = (if data p = [] then Break else Continue, s,
      [Sendto \<lparr>seqNum = lastSeqNum s, checksum = 0, type = ucast ACK_PKT\<rparr>])"
  by (simp add: receive_step_def Let_def)

lemma step_not_data:
  "scast (type (hdr p)) \<noteq> DATA_PKT \<Longrightarrow>
   receive_step prob s (Datagram p) r = (Exit, s, [Printf FatalRecvfrom])"
  by (simp add: receive_step_def)

lemma step_fail: "receive_step prob s RecvFail r = (Exit, s, [Printf FatalRecvfrom])"
  by (simp add: receive_step_def)

text \<open>An iteration writes exactly in the in-sequence case.\<close>

lemma wrote_step:
  "wrote (receive_step prob s ev r) \<longleftrightarrow>
   (\<exists>p. ev = Datagram p \<and> scast (type (hdr p)) = DATA_PKT
        \<and> calculateChecksum (data p) (length (data p)) = Some (checksum (hdr p))
        \<and> \<not> real (r mod 100) / 100 \<le> prob \<and> seqNum (hdr p) = expectedSeqNum s)"
proof (cases ev)
  case RecvFail
  then show ?thesis by (simp add: step_fail wrote_def)
next
  case (Datagram p)
  show ?thesis
  proof (cases "scast (type (hdr p)) = DATA_PKT")
    case False
    with Datagram show ?thesis by (simp add: step_not_data wrote_def)
  next
    case data: True
    show ?thesis
    proof (cases "calculateChecksum (data p) (length (data p)) = Some (checksum (hdr p))")
      case False
      with Datagram data show ?thesis by (simp add: step_mismatch wrote_def)
    next
      case sum: True
      show ?thesis
      proof (cases "real (r mod 100) / 100 \<le> prob")
        case True
        with Datagram data sum show ?thesis by (simp add: step_loss wrote_def)
      next
        case False
        with Datagram data sum show ?thesis
          by (cases "seqNum (hdr p) = expectedSeqNum s")
             (simp_all add: step_in_sequence step_out_of_sequence wrote_def)
      qed
    qed
  qed
qed

lemma step_wrote:
  assumes "wrote (receive_step prob s ev r)"
  shows "\<exists>p. ev = Datagram p \<and> seqNum (hdr p) = expectedSeqNum s
    \<and> receive_step prob s ev r
         = (if data p = [] then Break else Continue,
            s\<lparr>lastSeqNum := expectedSeqNum s, expectedSeqNum := expectedSeqNum s + 1\<rparr>,
            [Sendto \<lparr>seqNum = expectedSeqNum s, checksum = 0, type = ucast ACK_PKT\<rparr>,
             Fwrite (data p)])"
  using assms unfolding wrote_step by (auto simp: step_in_sequence)

lemma step_not_wrote:
  assumes "\<not> wrote (receive_step prob s ev r)"
  shows "fst (snd (receive_step prob s ev r)) = s"
    and "\<forall>h. Sendto h \<in> set (snd (snd (receive_step prob s ev r))) \<longrightarrow> seqNum h = lastSeqNum s"
proof -
  have "fst (snd (receive_step prob s ev r)) = s
    \<and> (\<forall>h. Sendto h \<in> set (snd (snd (receive_step prob s ev r))) \<longrightarrow> seqNum h = lastSeqNum s)"
  proof (cases ev)
    case RecvFail
    then show ?thesis by (simp add: step_fail)
  next
    case (Datagram p)
    show ?thesis
    proof (cases "scast (type (hdr p)) = DATA_PKT")
      case False
      with Datagram show ?thesis by (simp add: step_not_data)
    next
      case data: True
      show ?thesis
      proof (cases "calculateChecksum (data p) (length (data p)) = Some (checksum (hdr p))")
        case False
        with Datagram data show ?thesis by (simp add: step_mismatch)
      next
        case sum: True
        show ?thesis
        proof (cases "real (r mod 100) / 100 \<le> prob")
          case True
          with Datagram data sum show ?thesis by (simp add: step_loss)
        next
          case False
          with Datagram data sum assms have "seqNum (hdr p) \<noteq> expectedSeqNum s"
            by (auto simp: wrote_step)
          with False Datagram data sum show ?thesis by (simp add: step_out_of_sequence)
        qed
      qed
    qed
  qed
  thus "fst (snd (receive_step prob s ev r)) = s"
    and "\<forall>h. Sendto h \<in> set (snd (snd (receive_step prob s ev r))) \<longrightarrow> seqNum h = lastSeqNum s"
    by simp_all
qed

section \<open>Runs of the receiver\<close>

lemma step_expected:
  "expectedSeqNum (fst (snd (receive_step prob s ev r)))
   = expectedSeqNum s + (if wrote (receive_step prob s ev r) then 1 else 0)"
proof (cases "wrote (receive_step prob s ev r)")
  case True
  from step_wrote [OF True] obtain p :: packet where eq: "receive_step prob s ev r
         = (if data p = [] then Break else Continue,
            s\<lparr>lastSeqNum := expectedSeqNum s, expectedSeqNum := expectedSeqNum s + 1\<rparr>,
            [Sendto \<lparr>seqNum = expectedSeqNum s, checksum = 0, type = ucast ACK_PKT\<rparr>,
             Fwrite (data p)])"
    by (elim exE conjE)
  have "expectedSeqNum (fst (snd (receive_step prob s ev r))) = expectedSeqNum s + 1"
    by (simp add: eq)
  thus ?thesis by (simp only: True if_True)
next
  case False
  then show ?thesis by (simp add: step_not_wrote(1))
qed

lemma step_invariant:
  assumes "lastSeqNum s = expectedSeqNum s - 1"
  shows "lastSeqNum (fst (snd (receive_step prob s ev r)))
         = expectedSeqNum (fst (snd (receive_step prob s ev r))) - 1"
proof (cases "wrote (receive_step prob s ev r)")
  case True
  from step_wrote [OF True] obtain p :: packet where eq: "receive_step prob s ev r
         = (if data p = [] then Break else Continue,
            s\<lparr>lastSeqNum := expectedSeqNum s, expectedSeqNum := expectedSeqNum s + 1\<rparr>,
            [Sendto \<lparr>seqNum = expectedSeqNum s, checksum = 0, type = ucast ACK_PKT\<rparr>,
             Fwrite (data p)])"
    by (elim exE conjE)
  show ?thesis by (simp add: eq)
next
  case False
  then show ?thesis using assms by (simp add: step_not_wrote(1))
qed

lemma accepted_Cons: "accepted (x # tr) = (if wrote x then 1 else 0) + accepted tr"
  by (simp add: accepted_def)

lemma accepted_Nil: "accepted [] = 0"
  by (simp add: accepted_def)

lemma loop_nth:
  "i < length (receive_loop prob s arr) \<Longrightarrow>
   i < length arr
   \<and> receive_loop prob s arr ! i
       = receive_step prob (state_before s (receive_loop prob s arr) i)
           (fst (arr ! i)) (snd (arr ! i))
   \<and> expectedSeqNum (state_before s (receive_loop prob s arr) i)
       = expectedSeqNum s + of_nat (accepted (take i (receive_loop prob s arr)))
   \<and> (lastSeqNum s = expectedSeqNum s - 1 \<longrightarrow>
        lastSeqNum (state_before s (receive_loop prob s arr) i)
        = expectedSeqNum (state_before s (receive_loop prob s arr) i) - 1)"
proof (induction arr arbitrary: s i)
  case Nil
  then show ?case by simp
next
  case (Cons a rest)
  obtain ev r where a: "a = (ev, r)" by (cases a)
  let ?st = "receive_step prob s ev r"
  let ?s' = "fst (snd ?st)"
  let ?tr = "receive_loop prob s (a # rest)"
  have tr: "?tr = ?st # (if fst ?st = Continue then receive_loop prob ?s' rest else [])"
    by (simp add: a Let_def)
  show ?case
  proof (cases i)
    case 0
    then show ?thesis by (simp add: a state_before_def Let_def accepted_Nil)
  next
    case (Suc j)
    with Cons.prems tr have cont: "fst ?st = Continue"
      and j: "j < length (receive_loop prob ?s' rest)"
      by (auto split: if_splits)
    have tr': "?tr = ?st # receive_loop prob ?s' rest"
      using tr cont by simp
    have before: "state_before s ?tr (Suc j) = state_before ?s' (receive_loop prob ?s' rest) j"
      unfolding tr' by (cases j) (simp_all add: state_before_def)
    note ih = Cons.IH [OF j]
    have 1: "Suc j < length (a # rest)" using ih by simp
    have 2: "?tr ! Suc j = receive_step prob (state_before s ?tr (Suc j))
               (fst ((a # rest) ! Suc j)) (snd ((a # rest) ! Suc j))"
      unfolding before using ih by (simp add: tr')
    have 3: "expectedSeqNum (state_before s ?tr (Suc j))
             = expectedSeqNum s + of_nat (accepted (take (Suc j) ?tr))"
      unfolding before using ih
      by (simp add: tr' accepted_Cons step_expected [of prob s ev r])
    have 4: "lastSeqNum s = expectedSeqNum s - 1 \<longrightarrow>
             lastSeqNum (state_before s ?tr (Suc j))
             = expectedSeqNum (state_before s ?tr (Suc j)) - 1"
      unfolding before using ih step_invariant [of s prob ev r] by simp
    from 1 2 3 4 show ?thesis unfolding Suc by blast
  qed
qed

lemma take_Suc_accepted:
  "i < length tr \<Longrightarrow> accepted (take (Suc i) tr) = accepted (take i tr) + (if wrote (tr ! i) then 1 else 0)"
  by (simp add: take_Suc_conv_app_nth accepted_def)

lemma not_wrote_filter: "\<not> wrote x \<Longrightarrow> filter is_Fwrite (snd (snd x)) = []"
  by (simp add: wrote_def list_ex_iff filter_empty_conv)

lemma of_nat32_eq_0: "n < 2 ^ 32 \<Longrightarrow> (of_nat n :: int32) = 0 \<longleftrightarrow> n = 0"
proof
  assume n: "n < 2 ^ 32" and z: "(of_nat n :: int32) = 0"
  from z have "2 ^ 32 dvd n"
    by (simp add: word_of_nat_eq_0_iff)
  with n show "n = 0"
    using dvd_imp_le [of "2 ^ 32" n] by (cases "n = 0") simp_all
qed simp

lemma initial_invariant: "lastSeqNum initial = expectedSeqNum initial - 1"
  by (simp add: initial_def INVALID_SEQ_NO_def)

lemma main_nth:
  assumes "i < length (server_main prob arrivals)"
  shows "i < length arrivals"
    and "server_main prob arrivals ! i
         = receive_step prob (state_before initial (server_main prob arrivals) i)
             (fst (arrivals ! i)) (snd (arrivals ! i))"
    and "expectedSeqNum (state_before initial (server_main prob arrivals) i)
         = of_nat (accepted (take i (server_main prob arrivals)))"
    and "lastSeqNum (state_before initial (server_main prob arrivals) i)
         = expectedSeqNum (state_before initial (server_main prob arrivals) i) - 1"
  using loop_nth [of i prob initial arrivals] assms initial_invariant
  by (simp_all add: server_main_def initial_def)

text \<open>When an iteration ends in \<^verbatim>\<open>break\<close>.\<close>

lemma step_Break_iff:
  "fst (receive_step prob s ev r) = Break \<longleftrightarrow>
   (\<exists>p. ev = Datagram p \<and> scast (type (hdr p)) = DATA_PKT
        \<and> calculateChecksum (data p) (length (data p)) = Some (checksum (hdr p))
        \<and> \<not> real (r mod 100) / 100 \<le> prob
        \<and> data p = [])"
proof (cases ev)
  case RecvFail
  then show ?thesis by (simp add: step_fail)
next
  case (Datagram p)
  show ?thesis
  proof (cases "scast (type (hdr p)) = DATA_PKT")
    case False
    with Datagram show ?thesis by (simp add: step_not_data)
  next
    case data: True
    show ?thesis
    proof (cases "calculateChecksum (data p) (length (data p)) = Some (checksum (hdr p))")
      case False
      with Datagram data show ?thesis by (simp add: step_mismatch)
    next
      case sum: True
      show ?thesis
      proof (cases "real (r mod 100) / 100 \<le> prob")
        case True
        with Datagram data sum show ?thesis by (simp add: step_loss)
      next
        case False
        with Datagram data sum show ?thesis
          by (cases "seqNum (hdr p) = expectedSeqNum s")
             (simp_all add: step_in_sequence step_out_of_sequence)
      qed
    qed
  qed
qed

text \<open>
  The loop runs an iteration for the first arrival, stops after an iteration that does
  not end in \<open>Continue\<close>, and otherwise goes on to the next arrival.
\<close>

lemma loop_nonempty: "arr \<noteq> [] \<Longrightarrow> receive_loop prob s arr \<noteq> []"
  by (cases arr) (auto simp: Let_def)

lemma loop_stops:
  "i < length (receive_loop prob s arr) \<Longrightarrow> fst (receive_loop prob s arr ! i) \<noteq> Continue \<Longrightarrow>
   length (receive_loop prob s arr) = Suc i"
proof (induction arr arbitrary: s i)
  case Nil
  then show ?case by simp
next
  case (Cons a rest)
  obtain ev r where a: "a = (ev, r)" by (cases a)
  show ?case
  proof (cases i)
    case 0
    with Cons.prems show ?thesis by (simp add: a Let_def)
  next
    case (Suc j)
    with Cons.prems have cont: "fst (receive_step prob s ev r) = Continue"
      by (auto simp: a Let_def split: if_splits)
    with Cons.prems Suc
    have "length (receive_loop prob (fst (snd (receive_step prob s ev r))) rest) = Suc j"
      by (intro Cons.IH) (simp_all add: a Let_def)
    with cont Suc show ?thesis by (simp add: a Let_def)
  qed
qed

lemma loop_goes_on:
  "i < length (receive_loop prob s arr) \<Longrightarrow> fst (receive_loop prob s arr ! i) = Continue \<Longrightarrow>
   Suc i < length arr \<Longrightarrow> Suc i < length (receive_loop prob s arr)"
proof (induction arr arbitrary: s i)
  case Nil
  then show ?case by simp
next
  case (Cons a rest)
  obtain ev r where a: "a = (ev, r)" by (cases a)
  show ?case
  proof (cases i)
    case 0
    with Cons.prems have cont: "fst (receive_step prob s ev r) = Continue"
      and "rest \<noteq> []"
      by (auto simp: a Let_def)
    with loop_nonempty [of rest prob "fst (snd (receive_step prob s ev r))"] 0
    show ?thesis by (simp add: a Let_def)
  next
    case (Suc j)
    with Cons.prems have cont: "fst (receive_step prob s ev r) = Continue"
      by (auto simp: a Let_def split: if_splits)
    with Cons.prems Suc
    have "Suc j < length (receive_loop prob (fst (snd (receive_step prob s ev r))) rest)"
      by (intro Cons.IH) (simp_all add: a Let_def)
    with cont Suc show ?thesis by (simp add: a Let_def)
  qed
qed

section \<open>Concrete packets used below\<close>

text \<open>
  The payload 41 00 42 has checksum 7CFF; the payload 41 00 00 has checksum BEFF.
\<close>

lemma example_checksum: "calculateChecksum [0x41, 0, 0x42] 3 = Some 0x7CFF"
  using calculateChecksum_eq_spec [of 3 "[0x41, 0, 0x42]"]
  by (simp add: checksum_spec_def word_cat_eq)

lemma example_checksum_nul: "calculateChecksum [0x41, 0, 0] 3 = Some 0xBEFF"
  using calculateChecksum_eq_spec [of 3 "[0x41, 0, 0]"]
  by (simp add: checksum_spec_def word_cat_eq)

lemma example_checksum_Suc:
  "calculateChecksum [0x41, 0, 0x42] (Suc (Suc (Suc 0))) = Some 0x7CFF"
  using example_checksum by (simp add: numeral_3_eq_3)

lemma example_checksum_nul_Suc:
  "calculateChecksum [0x41, 0, 0] (Suc (Suc (Suc 0))) = Some 0xBEFF"
  using example_checksum_nul by (simp add: numeral_3_eq_3)

section \<open>Claims about the receiver\<close>

text \<open>
  Claim C7. A datagram of type DATA whose recomputed payload checksum differs from the
  checksum field of its header makes the iteration end with \<^verbatim>\<open>continue\<close>: no
  acknowledgement is sent, nothing is written, \<^verbatim>\<open>expectedSeqNum\<close> and \<^verbatim>\<open>lastSeqNum\<close> keep
  their values, and the loop goes on with the next datagram.
\<close>

theorem checksum_mismatch_dropped:
  assumes "scast (type (hdr p)) = DATA_PKT"
    and "calculateChecksum (data p) (length (data p)) \<noteq> Some (checksum (hdr p))"
  shows "receive_step prob s (Datagram p) r = (Continue, s, [])
         \<and> receive_loop prob s ((Datagram p, r) # rest)
             = (Continue, s, []) # receive_loop prob s rest"
  using assms by (simp add: step_mismatch)

text \<open>
  The payload 41 00 42 under a header whose checksum field is 0.
\<close>

theorem checksum_mismatch_dropped_witness:
  "scast (type (hdr \<lparr>hdr = \<lparr>seqNum = 0, checksum = 0, type = 0x5555\<rparr>, data = [0x41, 0, 0x42]\<rparr>)) = DATA_PKT
   \<and> calculateChecksum [0x41, 0, 0x42] 3 \<noteq> Some 0
   \<and> receive_step 0 initial
        (Datagram \<lparr>hdr = \<lparr>seqNum = 0, checksum = 0, type = 0x5555\<rparr>, data = [0x41, 0, 0x42]\<rparr>) 50
       = (Continue, initial, [])"
  using checksum_mismatch_dropped
          [of "\<lparr>hdr = \<lparr>seqNum = 0, checksum = 0, type = 0x5555\<rparr>, data = [0x41, 0, 0x42]\<rparr>"
              0 initial 50 "[]"]
  by (simp add: DATA_PKT_def example_checksum example_checksum_Suc)



text \<open>
  Claim C3 says that the loop ends normally only on a zero-length packet that is in
  sequence. Against it: with nothing accepted yet (\<^verbatim>\<open>expectedSeqNum = 0\<close>), a valid
  zero-length DATA packet numbered 5 is acknowledged with \<^verbatim>\<open>INVALID_SEQ_NO\<close> and the
  iteration ends in \<^verbatim>\<open>break\<close>. The test \<^verbatim>\<open>if (bufferSize == 0) break;\<close> stands after the
  whole \<^verbatim>\<open>if\<close>/\<^verbatim>\<open>else if\<close> chain and does not look at the sequence number.
\<close>

theorem out_of_sequence_end_marker_breaks:
  "fst (receive_step 0 initial
          (Datagram \<lparr>hdr = \<lparr>seqNum = 5, checksum = - 1, type = 0x5555\<rparr>, data = []\<rparr>) 50) = Break
   \<and> seqNum (hdr \<lparr>hdr = \<lparr>seqNum = 5, checksum = - 1, type = 0x5555\<rparr>, data = []\<rparr>)
       \<noteq> expectedSeqNum initial
   \<and> snd (receive_step 0 initial
          (Datagram \<lparr>hdr = \<lparr>seqNum = 5, checksum = - 1, type = 0x5555\<rparr>, data = []\<rparr>) 50)
       = (initial, [Sendto \<lparr>seqNum = - 1, checksum = 0, type = 0xAAAA\<rparr>])"
  by (simp add: receive_step_def checksum_empty initial_def DATA_PKT_def ACK_PKT_def
        INVALID_SEQ_NO_def)

text \<open>
  Claim C3, amended. The receive loop terminates normally if and only if it processes a
  datagram of type DATA with a valid checksum that the loss simulation does not drop and
  whose payload has length zero, whether its sequence number is the expected one or not.
  In every run, from every state: an iteration that ran ends in \<^verbatim>\<open>break\<close> exactly for such
  a datagram; after an iteration that does not end in \<open>Continue\<close> no further iteration
  runs, while after \<open>Continue\<close> the next arrival is processed. When such a datagram
  arrives the run consists of that one iteration, whatever arrives later: in sequence it
  is acknowledged with its number and accepted, out of sequence it is acknowledged with
  \<^verbatim>\<open>lastSeqNum\<close> and the variables stay as they were.
\<close>

theorem loop_ends_iff_zero_length_processed:
  "(\<forall>i < length (receive_loop prob s arrivals).
      (fst (receive_loop prob s arrivals ! i) = Break \<longleftrightarrow>
         (\<exists>p. fst (arrivals ! i) = Datagram p \<and> scast (type (hdr p)) = DATA_PKT
            \<and> calculateChecksum (data p) (length (data p)) = Some (checksum (hdr p))
            \<and> \<not> real (snd (arrivals ! i) mod 100) / 100 \<le> prob
            \<and> data p = []))
      \<and> (fst (receive_loop prob s arrivals ! i) \<noteq> Continue \<longrightarrow>
            length (receive_loop prob s arrivals) = Suc i)
      \<and> (fst (receive_loop prob s arrivals ! i) = Continue \<longrightarrow> Suc i < length arrivals \<longrightarrow>
            Suc i < length (receive_loop prob s arrivals)))
   \<and> (arrivals \<noteq> [] \<longrightarrow> receive_loop prob s arrivals \<noteq> [])
   \<and> (scast (type (hdr p)) = DATA_PKT
        \<and> calculateChecksum (data p) (length (data p)) = Some (checksum (hdr p))
        \<and> \<not> real (r mod 100) / 100 \<le> prob
        \<and> data p = [] \<longrightarrow>
        receive_loop prob s ((Datagram p, r) # rest)
        = [if seqNum (hdr p) = expectedSeqNum s
           then (Break,
                 s\<lparr>lastSeqNum := expectedSeqNum s, expectedSeqNum := expectedSeqNum s + 1\<rparr>,
                 [Sendto \<lparr>seqNum = expectedSeqNum s, checksum = 0, type = ucast ACK_PKT\<rparr>,
                  Fwrite []])
           else (Break, s,
                 [Sendto \<lparr>seqNum = lastSeqNum s, checksum = 0, type = ucast ACK_PKT\<rparr>])])"
proof (intro conjI allI impI)
  fix i
  assume i: "i < length (receive_loop prob s arrivals)"
  from loop_nth [OF i]
  have "receive_loop prob s arrivals ! i
        = receive_step prob (state_before s (receive_loop prob s arrivals) i)
            (fst (arrivals ! i)) (snd (arrivals ! i))"
    by simp
  thus "fst (receive_loop prob s arrivals ! i) = Break \<longleftrightarrow>
         (\<exists>p. fst (arrivals ! i) = Datagram p \<and> scast (type (hdr p)) = DATA_PKT
            \<and> calculateChecksum (data p) (length (data p)) = Some (checksum (hdr p))
            \<and> \<not> real (snd (arrivals ! i) mod 100) / 100 \<le> prob
            \<and> data p = [])"
    by (simp only: step_Break_iff)
next
  fix i
  assume "i < length (receive_loop prob s arrivals)"
    and "fst (receive_loop prob s arrivals ! i) \<noteq> Continue"
  thus "length (receive_loop prob s arrivals) = Suc i"
    by (rule loop_stops)
next
  fix i
  assume "i < length (receive_loop prob s arrivals)"
    and "fst (receive_loop prob s arrivals ! i) = Continue"
    and "Suc i < length arrivals"
  thus "Suc i < length (receive_loop prob s arrivals)"
    by (rule loop_goes_on)
next
  assume "arrivals \<noteq> []"
  thus "receive_loop prob s arrivals \<noteq> []"
    by (rule loop_nonempty)
next
  assume h: "scast (type (hdr p)) = DATA_PKT
        \<and> calculateChecksum (data p) (length (data p)) = Some (checksum (hdr p))
        \<and> \<not> real (r mod 100) / 100 \<le> prob
        \<and> data p = []"
  hence 1: "scast (type (hdr p)) = DATA_PKT"
    and 2: "calculateChecksum (data p) (length (data p)) = Some (checksum (hdr p))"
    and 3: "\<not> real (r mod 100) / 100 \<le> prob"
    and 4: "data p = []"
    by blast+
  show "receive_loop prob s ((Datagram p, r) # rest)
        = [if seqNum (hdr p) = expectedSeqNum s
           then (Break,
                 s\<lparr>lastSeqNum := expectedSeqNum s, expectedSeqNum := expectedSeqNum s + 1\<rparr>,
                 [Sendto \<lparr>seqNum = expectedSeqNum s, checksum = 0, type = ucast ACK_PKT\<rparr>,
                  Fwrite []])
           else (Break, s,
                 [Sendto \<lparr>seqNum = lastSeqNum s, checksum = 0, type = ucast ACK_PKT\<rparr>])]"
  proof (cases "seqNum (hdr p) = expectedSeqNum s")
    case True
    show ?thesis
      unfolding receive_loop.simps step_in_sequence [OF 1 2 3 True]
      using True 4 by (simp add: Let_def)
  next
    case False
    show ?thesis
      unfolding receive_loop.simps step_out_of_sequence [OF 1 2 3 False]
      using False 4 by (simp add: Let_def)
  qed
qed

text \<open>
  An end marker numbered 5 at the start ends the run, acknowledged with \<^verbatim>\<open>INVALID_SEQ_NO\<close>,
  and the packet behind it is not processed. Packet 0 with three bytes does not end the
  run; the end marker numbered 1 after it does, and packet 2 is not processed.
\<close>

theorem loop_ends_iff_zero_length_processed_witness:
  "receive_loop 0 initial
     [(Datagram \<lparr>hdr = \<lparr>seqNum = 5, checksum = - 1, type = 0x5555\<rparr>, data = []\<rparr>, 50),
      (Datagram \<lparr>hdr = \<lparr>seqNum = 0, checksum = 0x7CFF, type = 0x5555\<rparr>, data = [0x41, 0, 0x42]\<rparr>, 50)]
   = [(Break, initial, [Sendto \<lparr>seqNum = - 1, checksum = 0, type = 0xAAAA\<rparr>])]
   \<and> receive_loop 0 initial
     [(Datagram \<lparr>hdr = \<lparr>seqNum = 0, checksum = 0x7CFF, type = 0x5555\<rparr>, data = [0x41, 0, 0x42]\<rparr>, 50),
      (Datagram \<lparr>hdr = \<lparr>seqNum = 1, checksum = - 1, type = 0x5555\<rparr>, data = []\<rparr>, 50),
      (Datagram \<lparr>hdr = \<lparr>seqNum = 2, checksum = 0x7CFF, type = 0x5555\<rparr>, data = [0x41, 0, 0x42]\<rparr>, 50)]
   = [(Continue, \<lparr>expectedSeqNum = 1, lastSeqNum = 0\<rparr>,
       [Sendto \<lparr>seqNum = 0, checksum = 0, type = 0xAAAA\<rparr>, Fwrite [0x41, 0, 0x42]]),
      (Break, \<lparr>expectedSeqNum = 2, lastSeqNum = 1\<rparr>,
       [Sendto \<lparr>seqNum = 1, checksum = 0, type = 0xAAAA\<rparr>, Fwrite []])]
   \<and> scast (type \<lparr>seqNum = 5, checksum = - 1, type = 0x5555 :: int16\<rparr>) = DATA_PKT
   \<and> calculateChecksum [] 0 = Some (- 1)
   \<and> \<not> real (50 mod 100) / 100 \<le> 0"
  using loop_ends_iff_zero_length_processed
          [of 0 initial
              "[(Datagram \<lparr>hdr = \<lparr>seqNum = 5, checksum = - 1, type = 0x5555\<rparr>, data = []\<rparr>, 50),
                (Datagram \<lparr>hdr = \<lparr>seqNum = 0, checksum = 0x7CFF, type = 0x5555\<rparr>, data = [0x41, 0, 0x42]\<rparr>, 50)]"
              "\<lparr>hdr = \<lparr>seqNum = 5, checksum = - 1, type = 0x5555\<rparr>, data = []\<rparr>" 50
              "[(Datagram \<lparr>hdr = \<lparr>seqNum = 0, checksum = 0x7CFF, type = 0x5555\<rparr>, data = [0x41, 0, 0x42]\<rparr>, 50)]",
           THEN conjunct2, THEN conjunct2]
        loop_ends_iff_zero_length_processed
          [of 0 initial
              "[(Datagram \<lparr>hdr = \<lparr>seqNum = 0, checksum = 0x7CFF, type = 0x5555\<rparr>, data = [0x41, 0, 0x42]\<rparr>, 50),
                (Datagram \<lparr>hdr = \<lparr>seqNum = 1, checksum = - 1, type = 0x5555\<rparr>, data = []\<rparr>, 50),
                (Datagram \<lparr>hdr = \<lparr>seqNum = 2, checksum = 0x7CFF, type = 0x5555\<rparr>, data = [0x41, 0, 0x42]\<rparr>, 50)]"
              "\<lparr>hdr = \<lparr>seqNum = 1, checksum = - 1, type = 0x5555\<rparr>, data = []\<rparr>" 50 "[]",
           THEN conjunct2, THEN conjunct1]
  by (simp add: receive_step_def initial_def DATA_PKT_def ACK_PKT_def INVALID_SEQ_NO_def
        checksum_empty example_checksum_Suc)

text \<open>
  Claim C4 says that a valid packet is dropped only when the drawn value is strictly
  below the loss probability, so never with probability 0. The source compares with
  \<^verbatim>\<open><=\<close>: with \<^verbatim>\<open>packetLossProb = 0\<close> and a draw \<^verbatim>\<open>rand() % 100 = 0\<close> the valid in-sequence
  packet is dropped (logged as packet loss, not acknowledged, not written); with the
  draw 1 the same packet is accepted.
\<close>

theorem loss_probability_zero_drops:
  "receive_step 0 initial
     (Datagram \<lparr>hdr = \<lparr>seqNum = 0, checksum = 0x7CFF, type = 0x5555\<rparr>, data = [0x41, 0, 0x42]\<rparr>) 0
   = (Continue, initial, [Printf (PacketLoss 0)])
   \<and> receive_step 0 initial
     (Datagram \<lparr>hdr = \<lparr>seqNum = 0, checksum = 0x7CFF, type = 0x5555\<rparr>, data = [0x41, 0, 0x42]\<rparr>) 1
   = (Continue, \<lparr>expectedSeqNum = 1, lastSeqNum = 0\<rparr>,
      [Sendto \<lparr>seqNum = 0, checksum = 0, type = 0xAAAA\<rparr>, Fwrite [0x41, 0, 0x42]])"
  by (simp add: receive_step_def example_checksum_Suc initial_def DATA_PKT_def ACK_PKT_def)

text \<open>
  Claim C6. A write to the output file happens only in an iteration whose packet
  carries the expected sequence number; it writes that packet's payload and
  \<^verbatim>\<open>expectedSeqNum\<close> grows by one, while an iteration that does not write leaves
  \<^verbatim>\<open>expectedSeqNum\<close> alone. Hence in every run of \<^verbatim>\<open>main\<close> the packet written in an
  iteration has as its sequence number the count of writes before it: the writes come
  in the order 0, 1, 2, ... of their sequence numbers (as 32-bit values).
\<close>

theorem writes_in_sequence_order:
  "(wrote (receive_step prob s ev r) \<longrightarrow>
      (\<exists>p. ev = Datagram p \<and> seqNum (hdr p) = expectedSeqNum s
         \<and> filter is_Fwrite (snd (snd (receive_step prob s ev r))) = [Fwrite (data p)]
         \<and> expectedSeqNum (fst (snd (receive_step prob s ev r))) = expectedSeqNum s + 1))
   \<and> (\<not> wrote (receive_step prob s ev r) \<longrightarrow>
        filter is_Fwrite (snd (snd (receive_step prob s ev r))) = []
        \<and> expectedSeqNum (fst (snd (receive_step prob s ev r))) = expectedSeqNum s)
   \<and> (\<forall>i < length (server_main prob arrivals).
        wrote (server_main prob arrivals ! i) \<longrightarrow>
        (\<exists>p r'. arrivals ! i = (Datagram p, r')
           \<and> seqNum (hdr p) = of_nat (accepted (take i (server_main prob arrivals)))
           \<and> filter is_Fwrite (snd (snd (server_main prob arrivals ! i))) = [Fwrite (data p)]))"
proof (intro conjI impI allI)
  assume w: "wrote (receive_step prob s ev r)"
  from step_wrote [OF w] obtain p :: packet where "ev = Datagram p"
    and "seqNum (hdr p) = expectedSeqNum s"
    and eq: "receive_step prob s ev r
         = (if data p = [] then Break else Continue,
            s\<lparr>lastSeqNum := expectedSeqNum s, expectedSeqNum := expectedSeqNum s + 1\<rparr>,
            [Sendto \<lparr>seqNum = expectedSeqNum s, checksum = 0, type = ucast ACK_PKT\<rparr>,
             Fwrite (data p)])"
    by (elim exE conjE)
  thus "\<exists>p. ev = Datagram p \<and> seqNum (hdr p) = expectedSeqNum s
         \<and> filter is_Fwrite (snd (snd (receive_step prob s ev r))) = [Fwrite (data p)]
         \<and> expectedSeqNum (fst (snd (receive_step prob s ev r))) = expectedSeqNum s + 1"
    by (intro exI [of _ p]) (simp add: eq)
next
  assume "\<not> wrote (receive_step prob s ev r)"
  thus "filter is_Fwrite (snd (snd (receive_step prob s ev r))) = []"
    by (rule not_wrote_filter)
next
  assume "\<not> wrote (receive_step prob s ev r)"
  thus "expectedSeqNum (fst (snd (receive_step prob s ev r))) = expectedSeqNum s"
    by (simp add: step_not_wrote(1))
next
  fix i
  let ?tr = "server_main prob arrivals"
  let ?sb = "state_before initial ?tr i"
  assume i: "i < length ?tr" and w: "wrote (?tr ! i)"
  note n = main_nth [OF i]
  from w have "wrote (receive_step prob ?sb (fst (arrivals ! i)) (snd (arrivals ! i)))"
    by (simp only: n(2))
  from step_wrote [OF this] obtain p :: packet where "fst (arrivals ! i) = Datagram p"
    and "seqNum (hdr p) = expectedSeqNum ?sb"
    and eq: "receive_step prob ?sb (fst (arrivals ! i)) (snd (arrivals ! i))
         = (if data p = [] then Break else Continue,
            ?sb\<lparr>lastSeqNum := expectedSeqNum ?sb, expectedSeqNum := expectedSeqNum ?sb + 1\<rparr>,
            [Sendto \<lparr>seqNum = expectedSeqNum ?sb, checksum = 0, type = ucast ACK_PKT\<rparr>,
             Fwrite (data p)])"
    by (elim exE conjE)
  hence "arrivals ! i = (Datagram p, snd (arrivals ! i))
      \<and> seqNum (hdr p) = of_nat (accepted (take i ?tr))
      \<and> filter is_Fwrite (snd (snd (?tr ! i))) = [Fwrite (data p)]"
    by (simp add: n(2) n(3) eq prod_eq_iff)
  thus "\<exists>p r'. arrivals ! i = (Datagram p, r')
           \<and> seqNum (hdr p) = of_nat (accepted (take i ?tr))
           \<and> filter is_Fwrite (snd (snd (?tr ! i))) = [Fwrite (data p)]"
    by blast
qed

text \<open>
  Packet 0 is written from the initial state; packet 5 is not.
\<close>

theorem writes_in_sequence_order_witness:
  "wrote (receive_step 0 initial
      (Datagram \<lparr>hdr = \<lparr>seqNum = 0, checksum = 0x7CFF, type = 0x5555\<rparr>, data = [0x41, 0, 0x42]\<rparr>) 50)
   \<and> expectedSeqNum (fst (snd (receive_step 0 initial
      (Datagram \<lparr>hdr = \<lparr>seqNum = 0, checksum = 0x7CFF, type = 0x5555\<rparr>, data = [0x41, 0, 0x42]\<rparr>) 50))) = 1
   \<and> \<not> wrote (receive_step 0 initial
      (Datagram \<lparr>hdr = \<lparr>seqNum = 5, checksum = 0x7CFF, type = 0x5555\<rparr>, data = [0x41, 0, 0x42]\<rparr>) 50)
   \<and> expectedSeqNum (fst (snd (receive_step 0 initial
      (Datagram \<lparr>hdr = \<lparr>seqNum = 5, checksum = 0x7CFF, type = 0x5555\<rparr>, data = [0x41, 0, 0x42]\<rparr>) 50))) = 0
   \<and> 0 < length (server_main 0
      [(Datagram \<lparr>hdr = \<lparr>seqNum = 0, checksum = 0x7CFF, type = 0x5555\<rparr>, data = [0x41, 0, 0x42]\<rparr>, 50)])
   \<and> wrote (server_main 0
      [(Datagram \<lparr>hdr = \<lparr>seqNum = 0, checksum = 0x7CFF, type = 0x5555\<rparr>, data = [0x41, 0, 0x42]\<rparr>, 50)] ! 0)
   \<and> filter is_Fwrite (snd (snd (server_main 0
      [(Datagram \<lparr>hdr = \<lparr>seqNum = 0, checksum = 0x7CFF, type = 0x5555\<rparr>, data = [0x41, 0, 0x42]\<rparr>, 50)] ! 0)))
       = [Fwrite [0x41, 0, 0x42]]"
  using writes_in_sequence_order
          [of 0 initial
              "Datagram \<lparr>hdr = \<lparr>seqNum = 0, checksum = 0x7CFF, type = 0x5555\<rparr>, data = [0x41, 0, 0x42]\<rparr>"
              50
              "[(Datagram \<lparr>hdr = \<lparr>seqNum = 0, checksum = 0x7CFF, type = 0x5555\<rparr>, data = [0x41, 0, 0x42]\<rparr>, 50)]"]
        writes_in_sequence_order
          [of 0 initial
              "Datagram \<lparr>hdr = \<lparr>seqNum = 5, checksum = 0x7CFF, type = 0x5555\<rparr>, data = [0x41, 0, 0x42]\<rparr>"
              50 "[]"]
  by (simp add: server_main_def receive_step_def wrote_def initial_def DATA_PKT_def
        example_checksum_Suc)

text \<open>
  Claim C10. Initially \<^verbatim>\<open>lastSeqNum = expectedSeqNum - 1 = INVALID_SEQ_NO\<close>. After every
  iteration of every run of \<^verbatim>\<open>main\<close>: \<^verbatim>\<open>lastSeqNum = expectedSeqNum - 1\<close>;
  \<^verbatim>\<open>expectedSeqNum\<close> is the number of packets accepted so far, so that (below \<open>2 ^ 32\<close>
  accepted packets) \<^verbatim>\<open>lastSeqNum\<close> is \<^verbatim>\<open>INVALID_SEQ_NO\<close> exactly when none has been
  accepted; every acknowledgement sent in the iteration carries \<^verbatim>\<open>lastSeqNum\<close>, which
  is the sequence number of the packet just accepted if the iteration accepted one and
  is unchanged otherwise.
\<close>

theorem last_is_expected_minus_one:
  "lastSeqNum initial = expectedSeqNum initial - 1 \<and> lastSeqNum initial = INVALID_SEQ_NO
   \<and> (\<forall>i < length (server_main prob arrivals).
        lastSeqNum (fst (snd (server_main prob arrivals ! i)))
          = expectedSeqNum (fst (snd (server_main prob arrivals ! i))) - 1
        \<and> expectedSeqNum (fst (snd (server_main prob arrivals ! i)))
          = of_nat (accepted (take (Suc i) (server_main prob arrivals)))
        \<and> (accepted (take (Suc i) (server_main prob arrivals)) < 2 ^ 32 \<longrightarrow>
             (lastSeqNum (fst (snd (server_main prob arrivals ! i))) = INVALID_SEQ_NO
              \<longleftrightarrow> accepted (take (Suc i) (server_main prob arrivals)) = 0))
        \<and> (\<forall>h. Sendto h \<in> set (snd (snd (server_main prob arrivals ! i))) \<longrightarrow>
               seqNum h = lastSeqNum (fst (snd (server_main prob arrivals ! i))))
        \<and> (wrote (server_main prob arrivals ! i) \<longrightarrow>
             (\<exists>p r. arrivals ! i = (Datagram p, r)
                \<and> lastSeqNum (fst (snd (server_main prob arrivals ! i))) = seqNum (hdr p)))
        \<and> (\<not> wrote (server_main prob arrivals ! i) \<longrightarrow>
             lastSeqNum (fst (snd (server_main prob arrivals ! i)))
             = lastSeqNum (state_before initial (server_main prob arrivals) i)))"
proof (intro conjI allI impI)
  show "lastSeqNum initial = expectedSeqNum initial - 1"
    by (rule initial_invariant)
  show "lastSeqNum initial = INVALID_SEQ_NO"
    by (simp add: initial_def)
next
  fix i
  let ?tr = "server_main prob arrivals"
  let ?sb = "state_before initial ?tr i"
  let ?s' = "fst (snd (?tr ! i))"
  let ?n = "accepted (take (Suc i) ?tr)"
  assume i: "i < length ?tr"
  note n = main_nth [OF i]
  have inv: "lastSeqNum ?s' = expectedSeqNum ?s' - 1"
    unfolding n(2) using n(4) by (rule step_invariant)
  have exp: "expectedSeqNum ?s' = of_nat ?n"
    using step_expected [of prob ?sb "fst (arrivals ! i)" "snd (arrivals ! i)"]
    by (simp add: take_Suc_accepted [OF i] n(2) [symmetric] n(3))
  show "lastSeqNum ?s' = expectedSeqNum ?s' - 1" by (rule inv)
  show "expectedSeqNum ?s' = of_nat ?n" by (rule exp)
  {
    assume b: "?n < 2 ^ 32"
    have "lastSeqNum ?s' = INVALID_SEQ_NO \<longleftrightarrow> (of_nat ?n :: int32) = 0"
      unfolding inv exp INVALID_SEQ_NO_def by (simp add: algebra_simps)
    thus "lastSeqNum ?s' = INVALID_SEQ_NO \<longleftrightarrow> ?n = 0"
      using of_nat32_eq_0 [OF b] by simp
  }
  show ack: "seqNum h = lastSeqNum ?s'" if h: "Sendto h \<in> set (snd (snd (?tr ! i)))" for h
  proof (cases "wrote (?tr ! i)")
    case True
    hence "wrote (receive_step prob ?sb (fst (arrivals ! i)) (snd (arrivals ! i)))"
      by (simp only: n(2))
    from step_wrote [OF this] obtain p :: packet where
      eq: "receive_step prob ?sb (fst (arrivals ! i)) (snd (arrivals ! i))
         = (if data p = [] then Break else Continue,
            ?sb\<lparr>lastSeqNum := expectedSeqNum ?sb, expectedSeqNum := expectedSeqNum ?sb + 1\<rparr>,
            [Sendto \<lparr>seqNum = expectedSeqNum ?sb, checksum = 0, type = ucast ACK_PKT\<rparr>,
             Fwrite (data p)])"
      by (elim exE conjE)
    show ?thesis using h by (auto simp: n(2) eq)
  next
    case False
    hence nw: "\<not> wrote (receive_step prob ?sb (fst (arrivals ! i)) (snd (arrivals ! i)))"
      by (simp add: n(2))
    show ?thesis
      using h step_not_wrote [OF nw] by (simp add: n(2))
  qed
  {
    assume "wrote (?tr ! i)"
    hence "wrote (receive_step prob ?sb (fst (arrivals ! i)) (snd (arrivals ! i)))"
      by (simp only: n(2))
    from step_wrote [OF this] obtain p :: packet where "fst (arrivals ! i) = Datagram p"
      and "seqNum (hdr p) = expectedSeqNum ?sb"
      and eq: "receive_step prob ?sb (fst (arrivals ! i)) (snd (arrivals ! i))
         = (if data p = [] then Break else Continue,
            ?sb\<lparr>lastSeqNum := expectedSeqNum ?sb, expectedSeqNum := expectedSeqNum ?sb + 1\<rparr>,
            [Sendto \<lparr>seqNum = expectedSeqNum ?sb, checksum = 0, type = ucast ACK_PKT\<rparr>,
             Fwrite (data p)])"
      by (elim exE conjE)
    hence "arrivals ! i = (Datagram p, snd (arrivals ! i)) \<and> lastSeqNum ?s' = seqNum (hdr p)"
      by (simp add: n(2) eq prod_eq_iff)
    thus "\<exists>p r. arrivals ! i = (Datagram p, r) \<and> lastSeqNum ?s' = seqNum (hdr p)"
      by blast
  }
  {
    assume "\<not> wrote (?tr ! i)"
    hence nw: "\<not> wrote (receive_step prob ?sb (fst (arrivals ! i)) (snd (arrivals ! i)))"
      by (simp add: n(2))
    show "lastSeqNum ?s' = lastSeqNum ?sb"
      using step_not_wrote(1) [OF nw] by (simp add: n(2))
  }
qed

text \<open>
  Packet 0 followed by its duplicate: both are acknowledged with 0, one is accepted.
\<close>

theorem last_is_expected_minus_one_witness:
  "length (server_main 0
      [(Datagram \<lparr>hdr = \<lparr>seqNum = 0, checksum = 0x7CFF, type = 0x5555\<rparr>, data = [0x41, 0, 0x42]\<rparr>, 50),
       (Datagram \<lparr>hdr = \<lparr>seqNum = 0, checksum = 0x7CFF, type = 0x5555\<rparr>, data = [0x41, 0, 0x42]\<rparr>, 50)]) = 2
   \<and> server_main 0
      [(Datagram \<lparr>hdr = \<lparr>seqNum = 0, checksum = 0x7CFF, type = 0x5555\<rparr>, data = [0x41, 0, 0x42]\<rparr>, 50),
       (Datagram \<lparr>hdr = \<lparr>seqNum = 0, checksum = 0x7CFF, type = 0x5555\<rparr>, data = [0x41, 0, 0x42]\<rparr>, 50)]
     = [(Continue, \<lparr>expectedSeqNum = 1, lastSeqNum = 0\<rparr>,
         [Sendto \<lparr>seqNum = 0, checksum = 0, type = 0xAAAA\<rparr>, Fwrite [0x41, 0, 0x42]]),
        (Continue, \<lparr>expectedSeqNum = 1, lastSeqNum = 0\<rparr>,
         [Sendto \<lparr>seqNum = 0, checksum = 0, type = 0xAAAA\<rparr>])]
   \<and> wrote (server_main 0
      [(Datagram \<lparr>hdr = \<lparr>seqNum = 0, checksum = 0x7CFF, type = 0x5555\<rparr>, data = [0x41, 0, 0x42]\<rparr>, 50),
       (Datagram \<lparr>hdr = \<lparr>seqNum = 0, checksum = 0x7CFF, type = 0x5555\<rparr>, data = [0x41, 0, 0x42]\<rparr>, 50)] ! 0)
   \<and> \<not> wrote (server_main 0
      [(Datagram \<lparr>hdr = \<lparr>seqNum = 0, checksum = 0x7CFF, type = 0x5555\<rparr>, data = [0x41, 0, 0x42]\<rparr>, 50),
       (Datagram \<lparr>hdr = \<lparr>seqNum = 0, checksum = 0x7CFF, type = 0x5555\<rparr>, data = [0x41, 0, 0x42]\<rparr>, 50)] ! 1)
   \<and> accepted (take 2 (server_main 0
      [(Datagram \<lparr>hdr = \<lparr>seqNum = 0, checksum = 0x7CFF, type = 0x5555\<rparr>, data = [0x41, 0, 0x42]\<rparr>, 50),
       (Datagram \<lparr>hdr = \<lparr>seqNum = 0, checksum = 0x7CFF, type = 0x5555\<rparr>, data = [0x41, 0, 0x42]\<rparr>, 50)])) = 1"
  using last_is_expected_minus_one
          [of 0 "[(Datagram \<lparr>hdr = \<lparr>seqNum = 0, checksum = 0x7CFF, type = 0x5555\<rparr>, data = [0x41, 0, 0x42]\<rparr>, 50),
       (Datagram \<lparr>hdr = \<lparr>seqNum = 0, checksum = 0x7CFF, type = 0x5555\<rparr>, data = [0x41, 0, 0x42]\<rparr>, 50)]"]
  by (simp add: server_main_def receive_step_def wrote_def accepted_def initial_def DATA_PKT_def
        ACK_PKT_def example_checksum_Suc)

section \<open>What the sender builds and sends in general\<close>

text \<open>
  A segment without a NUL byte is copied as it is (for sizes below \<open>MAX_MSS\<close>).
\<close>

lemma strncpy_without_nul:
  "n \<le> length src \<Longrightarrow> 0 \<notin> set (take n src) \<Longrightarrow> strncpy src n = Some (take n src)"
  by (induction src n rule: strncpy.induct) auto

lemma sendPacket_without_nul:
  assumes "bufSize < MAX_MSS" and "bufSize \<le> length buf" and "0 \<notin> set (take bufSize buf)"
  shows "sendPacket n buf bufSize
         = Some \<lparr>hdr = \<lparr>seqNum = n, checksum = checksum_spec buf bufSize, type = 0x5555\<rparr>,
                 data = take bufSize buf\<rparr>"
proof -
  have "calculateChecksum (take bufSize buf) bufSize = Some (checksum_spec (take bufSize buf) bufSize)"
    using assms(2) by (simp add: calculateChecksum_eq_spec)
  moreover have "checksum_spec (take bufSize buf) bufSize = checksum_spec buf bufSize"
    by (simp add: checksum_spec_def)
  ultimately show ?thesis
    using assms by (simp add: sendPacket_def strncpy_without_nul DATA_PKT_def)
qed

text \<open>
  For \<open>0 < mss \<le> MAX_MSS\<close> the sender's \<^verbatim>\<open>main\<close> makes \<open>L div mss\<close> calls with full
  segments, one call with the remaining \<open>L mod mss\<close> bytes (none when \<open>mss\<close> divides \<open>L\<close>)
  and the call for the end marker, in this order and numbered from 0.
\<close>

lemma segment_loop_end:
  "segment_loop file mss n n pos
   = ([\<lparr>arg_segmentNum = n, arg_buffer = [], arg_bufferSize = 0\<rparr>], Returned)"
  by (subst segment_loop.simps) simp

lemma segment_loop_last:
  assumes "0 < mss" and "mss \<le> MAX_MSS" and q: "q = length file div mss"
  shows "segment_loop file mss (q + 1) q (mss * q)
   = ([\<lparr>arg_segmentNum = q, arg_buffer = drop (mss * q) file,
        arg_bufferSize = length file mod mss\<rparr>,
       \<lparr>arg_segmentNum = q + 1, arg_buffer = [], arg_bufferSize = 0\<rparr>], Returned)"
proof -
  have m: "length file - mss * q = length file mod mss"
    unfolding q by (simp add: minus_mult_div_eq_mod)
  have b: "\<not> MAX_MSS < length file mod mss"
    using assms(1,2) mod_less_divisor [of mss "length file"] by linarith
  show ?thesis
    by (subst segment_loop.simps) (simp add: m b segment_loop_end Let_def)
qed

lemma segment_loop_calls:
  assumes "0 < mss" and "mss \<le> MAX_MSS" and q: "q = length file div mss"
  shows "k \<le> q \<Longrightarrow>
   segment_loop file mss (q + 1) (q - k) (mss * (q - k))
   = (map (full_segment file mss) [q - k ..< q]
      @ [\<lparr>arg_segmentNum = q, arg_buffer = drop (mss * q) file,
           arg_bufferSize = length file mod mss\<rparr>,
         \<lparr>arg_segmentNum = q + 1, arg_buffer = [], arg_bufferSize = 0\<rparr>], Returned)"
proof (induction k)
  case 0
  then show ?case using segment_loop_last [OF assms] by simp
next
  case (Suc k)
  let ?j = "q - Suc k"
  have j: "?j < q" "?j + 1 = q - k" using Suc.prems by simp_all
  have "mss * (?j + 1) \<le> mss * q" using j by simp
  also have "\<dots> \<le> length file" unfolding q by simp
  finally have len: "mss * ?j + mss \<le> length file" by simp
  have nread: "length (take mss (drop (mss * ?j) file)) = mss"
    using len by simp
  have pos: "mss * ?j + mss = mss * (q - k)"
    using j(2) by (metis mult_Suc_right Suc_eq_plus1 add.commute)
  have ih: "segment_loop file mss (Suc q) (Suc ?j) (mss * ?j + mss)
     = (map (full_segment file mss) [q - k ..< q]
      @ [\<lparr>arg_segmentNum = q, arg_buffer = drop (mss * q) file,
           arg_bufferSize = length file mod mss\<rparr>,
         \<lparr>arg_segmentNum = q + 1, arg_buffer = [], arg_bufferSize = 0\<rparr>], Returned)"
    proof -
    have e: "Suc (q - Suc k) = q - k" using Suc.prems by simp
    show ?thesis using Suc.IH Suc.prems by (simp add: pos e)
  qed
  have upt: "[?j ..< q] = ?j # [q - k ..< q]"
    using j by (simp add: upt_conv_Cons)
  have "segment_loop file mss (q + 1) ?j (mss * ?j)
        = (full_segment file mss ?j # fst (segment_loop file mss (q + 1) (?j + 1) (mss * ?j + mss)),
           snd (segment_loop file mss (q + 1) (?j + 1) (mss * ?j + mss)))"
    using j(1) assms(2) nread
    by (subst segment_loop.simps) (simp add: Let_def full_segment_def split_beta)
  thus ?case
    by (simp add: ih upt)
qed

lemma client_main_calls:
  assumes "0 < mss" and "mss \<le> MAX_MSS"
  shows "client_main file mss
   = (map (full_segment file mss) [0 ..< length file div mss]
      @ [\<lparr>arg_segmentNum = length file div mss,
           arg_buffer = drop (mss * (length file div mss)) file,
           arg_bufferSize = length file mod mss\<rparr>,
         \<lparr>arg_segmentNum = length file div mss + 1, arg_buffer = [], arg_bufferSize = 0\<rparr>],
      Returned)"
  using segment_loop_calls [of mss "length file div mss" "file" "length file div mss", OF assms refl] assms(1)
  by (simp add: client_main_def Let_def)

section \<open>Claims about the sender\<close>

text \<open>
  Claim C1 says that the payload of every data packet equals the bytes of the segment,
  also when they contain NUL bytes, so that the receiver's file equals the source. The
  source copies the segment with \<^verbatim>\<open>strncpy\<close>, which stops at the first NUL and
  fills up with NUL: for the segment 41 00 42 the packet carries 41 00 00, with the
  checksum of those bytes, and a receiver accepts it and writes 41 00 00.
\<close>

theorem sendPacket_truncates_at_nul:
  "sendPacket 0 [0x41, 0, 0x42] 3
   = Some \<lparr>hdr = \<lparr>seqNum = 0, checksum = 0xBEFF, type = 0x5555\<rparr>, data = [0x41, 0, 0]\<rparr>
   \<and> receive_step 0 initial
        (Datagram \<lparr>hdr = \<lparr>seqNum = 0, checksum = 0xBEFF, type = 0x5555\<rparr>, data = [0x41, 0, 0]\<rparr>) 50
       = (Continue, \<lparr>expectedSeqNum = 1, lastSeqNum = 0\<rparr>,
          [Sendto \<lparr>seqNum = 0, checksum = 0, type = 0xAAAA\<rparr>, Fwrite [0x41, 0, 0]])"
  by (simp add: sendPacket_def MAX_MSS_def numeral_3_eq_3 example_checksum_nul_Suc
        receive_step_def initial_def DATA_PKT_def ACK_PKT_def)

text \<open>
  Claim C2 says that after the \<open>ceil (L / mss)\<close> data segments exactly one zero-length
  segment follows. With \<^verbatim>\<open>numSegments = fileLength / mss + 1\<close> the loop itself already
  ends on a zero-length segment when \<open>mss\<close> divides the length, and the end marker after
  the loop is a second one: an empty file gives segments 0 and 1, both empty; a file of
  exactly \<open>mss\<close> bytes gives segment 0 (full) and the empty segments 1 and 2.
\<close>

theorem exact_multiple_sends_two_end_markers:
  "client_main [] 4
   = ([\<lparr>arg_segmentNum = 0, arg_buffer = [], arg_bufferSize = 0\<rparr>,
       \<lparr>arg_segmentNum = 1, arg_buffer = [], arg_bufferSize = 0\<rparr>], Returned)
   \<and> client_main [1, 2, 3, 4] 4
   = ([\<lparr>arg_segmentNum = 0, arg_buffer = [1, 2, 3, 4], arg_bufferSize = 4\<rparr>,
       \<lparr>arg_segmentNum = 1, arg_buffer = [], arg_bufferSize = 0\<rparr>,
       \<lparr>arg_segmentNum = 2, arg_buffer = [], arg_bufferSize = 0\<rparr>], Returned)"
  by (simp add: client_main_def segment_loop.simps MAX_MSS_def)

end
